theory Spec2Isabelle
  imports Main "HOL-Library.Monad_Syntax"
begin

section \<open>Data model\<close>

text \<open>
  A node of the input graph. Only \<open>id\<close> is read by the engines (label and display
  coordinates belong to rendering); a missing, null or empty id is the empty string,
  the one falsy string of the source.
\<close>

record node =
  nid :: string

text \<open>
  An edge of the input graph. \<open>id\<close> is optional in the source (\<open>None\<close> is
  \<open>undefined\<close>); \<open>from\<close> and \<open>to\<close> are node ids (empty string: missing);
  \<open>directed\<close> defaults to false.
\<close>

record edge =
  eid :: "string option"
  efrom :: string
  eto :: string
  eweight :: int
  edirected :: bool

record graph =
  nodes :: "node list"
  edges :: "edge list"

text \<open>An edge object spread into a new object with a \<open>status\<close> field.\<close>

record annotated =
  base :: edge
  status :: string

section \<open>utils/graph-utils.js\<close>

subsection \<open>UnionFind\<close>

record UnionFind =
  parent :: "nat list"
  rank :: "nat list"

definition UnionFind_new :: "nat \<Rightarrow> UnionFind" where
  "UnionFind_new n = \<lparr>parent = [0..<n], rank = replicate n 0\<rparr>"

text \<open>
  \<open>find(x)\<close> with path compression. The recursion follows parent pointers, so it is a
  partial function: \<open>None\<close> stands for a call that does not return (a cyclic parent
  array) and for an index outside the array, which the engines never pass (indices are
  positions of \<open>graph.nodes\<close>).
\<close>

partial_function (option) UnionFind_find :: "UnionFind \<Rightarrow> nat \<Rightarrow> (nat \<times> UnionFind) option" where
  "UnionFind_find uf x =
     (if x < length (parent uf) then
        (if parent uf ! x \<noteq> x then
           Option.bind (UnionFind_find uf (parent uf ! x))
             (\<lambda>(r, uf'). Some (r, uf'\<lparr>parent := (parent uf')[x := r]\<rparr>))
         else Some (parent uf ! x, uf))
      else None)"

definition UnionFind_union :: "UnionFind \<Rightarrow> nat \<Rightarrow> nat \<Rightarrow> (bool \<times> UnionFind) option" where
  "UnionFind_union uf x y =
     Option.bind (UnionFind_find uf x) (\<lambda>(rootX, uf1).
     Option.bind (UnionFind_find uf1 y) (\<lambda>(rootY, uf2).
       if rootX = rootY then Some (False, uf2)
       else if rank uf2 ! rootX < rank uf2 ! rootY then
         Some (True, uf2\<lparr>parent := (parent uf2)[rootX := rootY]\<rparr>)
       else if rank uf2 ! rootX > rank uf2 ! rootY then
         Some (True, uf2\<lparr>parent := (parent uf2)[rootY := rootX]\<rparr>)
       else
         Some (True, uf2\<lparr>parent := (parent uf2)[rootY := rootX],
                          rank := (rank uf2)[rootX := Suc (rank uf2 ! rootX)]\<rparr>)))"

definition UnionFind_connected :: "UnionFind \<Rightarrow> nat \<Rightarrow> nat \<Rightarrow> (bool \<times> UnionFind) option" where
  "UnionFind_connected uf x y =
     Option.bind (UnionFind_find uf x) (\<lambda>(rootX, uf1).
     Option.bind (UnionFind_find uf1 y) (\<lambda>(rootY, uf2).
       Some (rootX = rootY, uf2)))"

subsection \<open>validateGraph\<close>

text \<open>
  The checks of \<open>validateGraph\<close> that the types leave open: at least one node, and for
  each edge in order a non-empty \<open>from\<close> and \<open>to\<close> and a non-negative weight. (That
  \<open>nodes\<close> and \<open>edges\<close> are arrays and that a weight is a number holds by typing.)
  An error is the message of the thrown \<open>Error\<close>.
\<close>

fun validateEdges :: "edge list \<Rightarrow> string + bool" where
  "validateEdges [] = Inr True"
| "validateEdges (e # es) =
     (if efrom e = [] \<or> eto e = [] then
        Inl ''Each edge must have from, to, and weight properties''
      else if eweight e < 0 then
        Inl ''Edge weights must be non-negative numbers''
      else validateEdges es)"

definition validateGraph :: "graph \<Rightarrow> string + bool" where
  "validateGraph g =
     (if nodes g = [] then Inl ''Graph must have at least one node''
      else validateEdges (edges g))"

subsection \<open>createAdjacencyList\<close>

record adjEntry =
  a_to :: string
  a_weight :: int
  a_edgeId :: string

text \<open>
  The adjacency list is an object keyed by node id; it is kept as an association list
  (one entry per key, read with \<open>map_of\<close>).
\<close>

type_synonym adjacency = "(string \<times> adjEntry list) list"

fun adjSet :: "string \<Rightarrow> adjEntry list \<Rightarrow> adjacency \<Rightarrow> adjacency" where
  "adjSet k v [] = [(k, v)]"
| "adjSet k v ((k', v') # rest) = (if k' = k then (k, v) # rest else (k', v') # adjSet k v rest)"

definition adjPush :: "string \<Rightarrow> adjEntry \<Rightarrow> adjacency \<Rightarrow> adjacency" where
  "adjPush k x adj = (case map_of adj k of None \<Rightarrow> adj | Some v \<Rightarrow> adjSet k (v @ [x]) adj)"

text \<open>\<open>edge.id || `${edge.from}-${edge.to}`\<close>\<close>

definition edgeIdOf :: "edge \<Rightarrow> string" where
  "edgeIdOf e =
     (case eid e of
        Some i \<Rightarrow> if i \<noteq> [] then i else efrom e @ ''-'' @ eto e
      | None \<Rightarrow> efrom e @ ''-'' @ eto e)"

definition adjAddEdge :: "edge \<Rightarrow> adjacency \<Rightarrow> adjacency" where
  "adjAddEdge e adj =
     (if efrom e \<noteq> [] \<and> eto e \<noteq> [] \<and> map_of adj (efrom e) \<noteq> None \<and> map_of adj (eto e) \<noteq> None then
        (let adj1 = adjPush (efrom e) \<lparr>a_to = eto e, a_weight = eweight e, a_edgeId = edgeIdOf e\<rparr> adj in
         if \<not> edirected e then
           adjPush (eto e) \<lparr>a_to = efrom e, a_weight = eweight e, a_edgeId = edgeIdOf e\<rparr> adj1
         else adj1)
      else adj)"

definition createAdjacencyList :: "graph \<Rightarrow> adjacency" where
  "createAdjacencyList g =
     fold adjAddEdge (edges g)
       (fold (\<lambda>n adj. if nid n \<noteq> [] then adjSet (nid n) [] adj else adj) (nodes g) [])"

text \<open>\<open>adjList[id] || []\<close>\<close>

definition neighborsOf :: "adjacency \<Rightarrow> string \<Rightarrow> adjEntry list" where
  "neighborsOf adj k = (case map_of adj k of None \<Rightarrow> [] | Some v \<Rightarrow> v)"

text \<open>
  A \<open>Set\<close> of node ids keeps insertion order, which \<open>[...visited]\<close> exposes: a list
  without repetitions.
\<close>

definition setAdd :: "string list \<Rightarrow> string \<Rightarrow> string list" where
  "setAdd xs x = (if x \<in> set xs then xs else xs @ [x])"

section \<open>The Kruskal trace engine\<close>

text \<open>
  The narration of a step, kept as the template the source fills in and its arguments
  (the text itself is presentation).
\<close>

datatype kdescription =
    KStarting                     \<comment> \<open>Starting Kruskal's Algorithm. Edges sorted by weight.\<close>
  | KRejected string string int   \<comment> \<open>Edge from-to (weight: w) would create a cycle. Rejected.\<close>
  | KAdded string string int      \<comment> \<open>Edge from-to (weight: w) added to MST.\<close>
  | KCompleted int                \<comment> \<open>MST completed! Total cost: c\<close>

record kstep =
  k_step :: nat
  k_description :: kdescription
  k_currentEdge :: "annotated option"
  k_sortedEdges :: "annotated list"
  k_mstEdges :: "annotated list"
  k_unionFindState :: "string list list"
  k_totalCost :: int
  k_action :: string
  k_wouldCreateCycle :: "bool option"

record kfinal =
  kf_mstEdges :: "annotated list"
  kf_totalCost :: int
  kf_edgeCount :: nat

record kresult =
  kr_steps :: "kstep list"
  kr_finalResult :: kfinal

text \<open>The live state of one run: the variables the \<open>forEach\<close> callback mutates.\<close>

record kstate =
  ks_uf :: UnionFind
  ks_mstEdges :: "annotated list"
  ks_totalCost :: int
  ks_steps :: "kstep list"

text \<open>
  \<open>nodeMap\<close>: node id to position in \<open>graph.nodes\<close>; a later node with the same id
  overwrites an earlier one, a node without id is left out.
\<close>

definition nodeMapOf :: "node list \<Rightarrow> (string \<rightharpoonup> nat)" where
  "nodeMapOf ns =
     fold (\<lambda>(index, n) m. if nid n \<noteq> [] then m(nid n \<mapsto> index) else m)
       (enumerate 0 ns) Map.empty"

text \<open>
  \<open>getUnionFindState\<close>: the \<open>components\<close> object maps a root index to the ids found
  under it, in node order. \<open>Object.values\<close> lists integer keys in ascending order.
  Every \<open>uf.find\<close> compresses paths, so the union-find is returned as well.
\<close>

fun componentsPush :: "nat \<Rightarrow> string \<Rightarrow> (nat \<times> string list) list \<Rightarrow> (nat \<times> string list) list" where
  "componentsPush root i [] = [(root, [i])]"
| "componentsPush root i ((k, ids) # cs) =
     (if k = root then (k, ids @ [i]) # cs else (k, ids) # componentsPush root i cs)"

fun getUnionFindState_loop ::
  "UnionFind \<Rightarrow> (nat \<times> node) list \<Rightarrow> (nat \<times> string list) list
    \<Rightarrow> ((nat \<times> string list) list \<times> UnionFind) option" where
  "getUnionFindState_loop uf [] components = Some (components, uf)"
| "getUnionFindState_loop uf ((index, n) # rest) components =
     (if nid n \<noteq> [] then
        Option.bind (UnionFind_find uf index) (\<lambda>(root, uf').
          getUnionFindState_loop uf' rest (componentsPush root (nid n) components))
      else getUnionFindState_loop uf rest components)"

definition getUnionFindState :: "UnionFind \<Rightarrow> node list \<Rightarrow> (string list list \<times> UnionFind) option" where
  "getUnionFindState uf ns =
     Option.bind (getUnionFindState_loop uf (enumerate 0 ns) [])
       (\<lambda>(components, uf'). Some (map snd (sort_key fst components), uf'))"

text \<open>\<open>mstEdges.find(mst => mst.id === e.id)\<close> as a truth value.\<close>

definition inMst :: "annotated list \<Rightarrow> edge \<Rightarrow> bool" where
  "inMst mst e = list_ex (\<lambda>m. eid (base m) = eid e) mst"

definition annotate :: "edge list \<Rightarrow> (nat \<Rightarrow> edge \<Rightarrow> string) \<Rightarrow> annotated list" where
  "annotate es f = map (\<lambda>(i, e). \<lparr>base = e, status = f i e\<rparr>) (enumerate 0 es)"

text \<open>
  The step pushed for the edge examined at position \<open>index\<close> of the sorted array
  (after \<open>mstEdges\<close> and \<open>totalCost\<close> were updated), and the \<open>complete\<close> step.
\<close>

definition examinedStep ::
  "nat \<Rightarrow> edge \<Rightarrow> edge list \<Rightarrow> annotated list \<Rightarrow> int \<Rightarrow> bool \<Rightarrow> string list list \<Rightarrow> kstep" where
  "examinedStep index e es mst cost wouldCreateCycle ufState =
     (let stat = (if wouldCreateCycle then ''rejected'' else ''accepted'') in
      \<lparr>k_step = index + 1,
       k_description =
         (if wouldCreateCycle then KRejected (efrom e) (eto e) (eweight e)
          else KAdded (efrom e) (eto e) (eweight e)),
       k_currentEdge = Some \<lparr>base = e, status = stat\<rparr>,
       k_sortedEdges = annotate es (\<lambda>i x.
         if i < index then (if inMst mst x then ''accepted'' else ''rejected'')
         else if i = index then stat else ''pending''),
       k_mstEdges = mst,
       k_unionFindState = ufState,
       k_totalCost = cost,
       k_action = (if wouldCreateCycle then ''reject'' else ''accept''),
       k_wouldCreateCycle = Some wouldCreateCycle\<rparr>)"

definition completeStep ::
  "nat \<Rightarrow> edge list \<Rightarrow> annotated list \<Rightarrow> int \<Rightarrow> string list list \<Rightarrow> kstep" where
  "completeStep index es mst cost ufState =
     \<lparr>k_step = index + 2,
      k_description = KCompleted cost,
      k_currentEdge = None,
      k_sortedEdges = annotate es (\<lambda>i x.
        if i \<le> index then (if inMst mst x then ''accepted'' else ''rejected'')
        else ''pending''),
      k_mstEdges = mst,
      k_unionFindState = ufState,
      k_totalCost = cost,
      k_action = ''complete'',
      k_wouldCreateCycle = None\<rparr>"

text \<open>
  The body of the \<open>edges.forEach\<close> callback for the edge at position \<open>index\<close> of the
  sorted array. Each \<open>return\<close> of the callback ends this call only: \<open>forEach\<close> goes
  on to the next edge.
\<close>

definition kruskalEach ::
  "node list \<Rightarrow> (string \<rightharpoonup> nat) \<Rightarrow> edge list \<Rightarrow> nat \<times> edge \<Rightarrow> kstate \<Rightarrow> kstate option" where
  "kruskalEach ns nodeMap es ie st =
     (let index = fst ie; e = snd ie in
      if efrom e = [] \<or> eto e = [] then Some st
      else case (nodeMap (efrom e), nodeMap (eto e)) of
        (Some fromNode, Some toNode) \<Rightarrow>
          Option.bind (UnionFind_connected (ks_uf st) fromNode toNode) (\<lambda>(wouldCreateCycle, uf1).
          Option.bind
            (if wouldCreateCycle then Some (uf1, ks_mstEdges st, ks_totalCost st)
             else Option.bind (UnionFind_union uf1 fromNode toNode) (\<lambda>(_, uf2).
               Some (uf2, ks_mstEdges st @ [\<lparr>base = e, status = ''accepted''\<rparr>],
                     ks_totalCost st + eweight e)))
            (\<lambda>(uf2, mst, cost).
          Option.bind (getUnionFindState uf2 ns) (\<lambda>(ufState, uf3).
          let examined = examinedStep index e es mst cost wouldCreateCycle ufState in
          if int (length mst) = int (length ns) - 1 then
            Option.bind (getUnionFindState uf3 ns) (\<lambda>(ufState', uf4).
            Some \<lparr>ks_uf = uf4, ks_mstEdges = mst, ks_totalCost = cost,
                  ks_steps = ks_steps st @ [examined, completeStep index es mst cost ufState']\<rparr>)
          else
            Some \<lparr>ks_uf = uf3, ks_mstEdges = mst, ks_totalCost = cost,
                  ks_steps = ks_steps st @ [examined]\<rparr>)))
      | _ \<Rightarrow> Some st)"

fun kruskalLoop ::
  "node list \<Rightarrow> (string \<rightharpoonup> nat) \<Rightarrow> edge list \<Rightarrow> (nat \<times> edge) list \<Rightarrow> kstate \<Rightarrow> kstate option" where
  "kruskalLoop ns nodeMap es [] st = Some st"
| "kruskalLoop ns nodeMap es (ie # rest) st =
     Option.bind (kruskalEach ns nodeMap es ie st) (kruskalLoop ns nodeMap es rest)"

text \<open>
  \<open>kruskalAlgorithm\<close>: the outer \<open>option\<close> is \<open>None\<close> when a \<open>find\<close> does not
  return; \<open>Inl\<close> carries the message of the \<open>Error\<close> rethrown by the \<open>catch\<close>.
\<close>

definition kruskalAlgorithm :: "graph \<Rightarrow> (string + kresult) option" where
  "kruskalAlgorithm g =
     (case validateGraph g of
        Inl msg \<Rightarrow> Some (Inl (''Kruskal algorithm error: '' @ msg))
      | Inr _ \<Rightarrow>
          (let es = sort_key eweight (edges g);
               uf = UnionFind_new (length (nodes g));
               nodeMap = nodeMapOf (nodes g) in
           Option.bind (getUnionFindState uf (nodes g)) (\<lambda>(ufState, uf0).
           Option.bind
             (kruskalLoop (nodes g) nodeMap es (enumerate 0 es)
                \<lparr>ks_uf = uf0, ks_mstEdges = [], ks_totalCost = 0,
                 ks_steps = [\<lparr>
                   k_step = 0,
                   k_description = KStarting,
                   k_currentEdge = None,
                   k_sortedEdges = annotate es (\<lambda>i x. ''pending''),
                   k_mstEdges = [],
                   k_unionFindState = ufState,
                   k_totalCost = 0,
                   k_action = ''initialize'',
                   k_wouldCreateCycle = None\<rparr>]\<rparr>)
             (\<lambda>st. Some (Inr \<lparr>
                kr_steps = ks_steps st,
                kr_finalResult = \<lparr>
                  kf_mstEdges = ks_mstEdges st,
                  kf_totalCost = ks_totalCost st,
                  kf_edgeCount = length (ks_mstEdges st)\<rparr>\<rparr>)))))"

section \<open>The Prim trace engine\<close>

record pqEntry =
  q_from :: string
  q_to :: string
  q_weight :: int
  q_edgeId :: string

record pmstEdge =
  m_id :: string
  m_from :: string
  m_to :: string
  m_weight :: int
  m_status :: string

datatype pdescription =
    PStarting string               \<comment> \<open>Starting Prim's Algorithm from node s\<close>
  | PSkipped string string int     \<comment> \<open>Edge from-to (weight: w) skipped - both nodes already in MST\<close>
  | PAdded string string int nat   \<comment> \<open>Added edge from-to (weight: w) to MST. Added n new edges to consider.\<close>
  | PCompleted int                 \<comment> \<open>MST completed! All nodes visited. Total cost: c\<close>

record pstep =
  p_step :: nat
  p_description :: pdescription
  p_currentEdge :: "(pqEntry \<times> string) option"
  p_visitedNodes :: "string list"
  p_priorityQueue :: "pqEntry list"
  p_mstEdges :: "pmstEdge list"
  p_totalCost :: int
  p_action :: string
  p_newEdgesAdded :: "pqEntry list option"

record pfinal =
  pf_mstEdges :: "pmstEdge list"
  pf_totalCost :: int
  pf_edgeCount :: nat
  pf_startNode :: string

record presult =
  pr_steps :: "pstep list"
  pr_finalResult :: pfinal

record pstate =
  ps_visited :: "string list"
  ps_priorityQueue :: "pqEntry list"
  ps_mstEdges :: "pmstEdge list"
  ps_totalCost :: int
  ps_steps :: "pstep list"
  ps_stepCount :: nat

text \<open>
  The frontier entries pushed for the neighbours of \<open>node\<close>: one per adjacency entry
  whose far end is present and not visited.
\<close>

definition frontierOf :: "string \<Rightarrow> adjEntry list \<Rightarrow> string list \<Rightarrow> pqEntry list" where
  "frontierOf node neighbors visited =
     map (\<lambda>a. \<lparr>q_from = node, q_to = a_to a, q_weight = a_weight a,
               q_edgeId = (if a_edgeId a \<noteq> [] then a_edgeId a else node @ ''-'' @ a_to a)\<rparr>)
       (filter (\<lambda>a. a_to a \<noteq> [] \<and> a_to a \<notin> set visited) neighbors)"

text \<open>One accepted edge: the body of the loop after the \<open>skip\<close> test.\<close>

definition primAccept :: "adjacency \<Rightarrow> pqEntry \<Rightarrow> pqEntry list \<Rightarrow> pstate \<Rightarrow> pstate" where
  "primAccept adjList currentEdge queue st =
     (let mst = ps_mstEdges st @ [\<lparr>m_id = q_edgeId currentEdge, m_from = q_from currentEdge,
                                   m_to = q_to currentEdge, m_weight = q_weight currentEdge,
                                   m_status = ''accepted''\<rparr>];
          cost = ps_totalCost st + q_weight currentEdge;
          visited = setAdd (ps_visited st) (q_to currentEdge);
          newEdges = frontierOf (q_to currentEdge) (neighborsOf adjList (q_to currentEdge)) visited;
          queue1 = filter (\<lambda>e. q_to e \<noteq> [] \<and> q_to e \<notin> set visited) (queue @ newEdges);
          queue2 = sort_key q_weight queue1 in
      \<lparr>ps_visited = visited, ps_priorityQueue = queue2, ps_mstEdges = mst, ps_totalCost = cost,
       ps_steps = ps_steps st @ [\<lparr>
         p_step = ps_stepCount st,
         p_description = PAdded (q_from currentEdge) (q_to currentEdge) (q_weight currentEdge)
                           (length newEdges),
         p_currentEdge = Some (currentEdge, ''accepted''),
         p_visitedNodes = visited,
         p_priorityQueue = queue2,
         p_mstEdges = mst,
         p_totalCost = cost,
         p_action = ''accept'',
         p_newEdgesAdded = Some newEdges\<rparr>],
       ps_stepCount = ps_stepCount st + 1\<rparr>)"

definition primSkip :: "pqEntry \<Rightarrow> pqEntry list \<Rightarrow> pstate \<Rightarrow> pstate" where
  "primSkip currentEdge queue st =
     st\<lparr>ps_priorityQueue := queue,
        ps_steps := ps_steps st @ [\<lparr>
          p_step = ps_stepCount st,
          p_description = PSkipped (q_from currentEdge) (q_to currentEdge) (q_weight currentEdge),
          p_currentEdge = Some (currentEdge, ''skipped''),
          p_visitedNodes = ps_visited st,
          p_priorityQueue = queue,
          p_mstEdges = ps_mstEdges st,
          p_totalCost = ps_totalCost st,
          p_action = ''skip'',
          p_newEdgesAdded = None\<rparr>],
        ps_stepCount := ps_stepCount st + 1\<rparr>"

text \<open>One iteration of the \<open>while\<close> loop on a non-empty queue.\<close>

definition primIter :: "adjacency \<Rightarrow> pqEntry \<Rightarrow> pqEntry list \<Rightarrow> pstate \<Rightarrow> pstate" where
  "primIter adjList currentEdge queue st =
     (if q_to currentEdge = [] then st\<lparr>ps_priorityQueue := queue\<rparr>
      else if q_to currentEdge \<in> set (ps_visited st) then primSkip currentEdge queue st
      else primAccept adjList currentEdge queue st)"

text \<open>
  What bounds the loop: the node ids that can still be visited (far ends of queue and
  adjacency entries not yet in \<open>visited\<close>), then the length of the queue.
\<close>

definition adjTargets :: "adjacency \<Rightarrow> string set" where
  "adjTargets adj = (\<Union>(k, v) \<in> set adj. a_to ` set v)"

definition primPending :: "adjacency \<Rightarrow> pstate \<Rightarrow> string set" where
  "primPending adj st = (adjTargets adj \<union> q_to ` set (ps_priorityQueue st)) - set (ps_visited st)"

lemma finite_adjTargets: "finite (adjTargets adj)"
  by (auto simp: adjTargets_def)

lemma finite_primPending: "finite (primPending adj st)"
  by (simp add: primPending_def finite_adjTargets)

lemma neighborsOf_targets:
  assumes "a \<in> set (neighborsOf adj k)"
  shows "a_to a \<in> adjTargets adj"
proof (cases "map_of adj k")
  case None
  then show ?thesis using assms by (simp add: neighborsOf_def)
next
  case (Some v)
  then have "(k, v) \<in> set adj" by (rule map_of_SomeD)
  moreover have "a \<in> set v" using assms Some by (simp add: neighborsOf_def)
  ultimately show ?thesis unfolding adjTargets_def by force
qed

lemma primPending_skip:
  assumes "ps_priorityQueue st = c # q" "q_to c = [] \<or> q_to c \<in> set (ps_visited st)"
  shows "primPending adj (primIter adj c q st) \<subseteq> primPending adj st"
    and "length (ps_priorityQueue (primIter adj c q st)) < length (ps_priorityQueue st)"
  using assms by (auto simp: primPending_def primIter_def primSkip_def)

lemma primPending_accept:
  assumes "ps_priorityQueue st = c # q" "q_to c \<noteq> []" "q_to c \<notin> set (ps_visited st)"
  shows "primPending adj (primIter adj c q st) \<subset> primPending adj st"
proof -
  have "q_to c \<in> primPending adj st" using assms by (simp add: primPending_def)
  moreover have "q_to c \<notin> primPending adj (primIter adj c q st)"
    using assms by (simp add: primPending_def primIter_def primAccept_def Let_def setAdd_def)
  moreover have "primPending adj (primIter adj c q st) \<subseteq> primPending adj st"
    using assms
    by (auto simp: primPending_def primIter_def primAccept_def Let_def setAdd_def frontierOf_def
        dest: neighborsOf_targets)
  ultimately show ?thesis by blast
qed

lemma primIter_decreases:
  assumes "ps_priorityQueue st = c # q"
  shows "card (primPending adj (primIter adj c q st)) < card (primPending adj st)
       \<or> (card (primPending adj (primIter adj c q st)) = card (primPending adj st)
          \<and> length (ps_priorityQueue (primIter adj c q st)) < length (ps_priorityQueue st))"
proof (cases "q_to c = [] \<or> q_to c \<in> set (ps_visited st)")
  case True
  from primPending_skip[OF assms True, of adj]
  have "card (primPending adj (primIter adj c q st)) \<le> card (primPending adj st)"
    and "length (ps_priorityQueue (primIter adj c q st)) < length (ps_priorityQueue st)"
    by (auto intro: card_mono finite_primPending)
  then show ?thesis by linarith
next
  case False
  then have "primPending adj (primIter adj c q st) \<subset> primPending adj st"
    using primPending_accept[OF assms] by blast
  then show ?thesis by (auto intro: psubset_card_mono finite_primPending)
qed

text \<open>
  \<open>while (priorityQueue.length > 0 && visited.size < graph.nodes.length)\<close>; \<open>n\<close> is
  \<open>graph.nodes.length\<close>.
\<close>

function primLoop :: "nat \<Rightarrow> adjacency \<Rightarrow> pstate \<Rightarrow> pstate" where
  "primLoop n adjList st =
     (case ps_priorityQueue st of
        [] \<Rightarrow> st
      | currentEdge # queue \<Rightarrow>
          if length (ps_visited st) < n then primLoop n adjList (primIter adjList currentEdge queue st)
          else st)"
  by pat_completeness auto
termination
proof (relation "measures [\<lambda>(n, adj, st). card (primPending adj st),
                           \<lambda>(n, adj, st). length (ps_priorityQueue st)]", goal_cases)
  case 1
  show ?case by simp
next
  case (2 n adjList st currentEdge queue)
  then show ?case using primIter_decreases[of st currentEdge queue adjList] by auto
qed

declare primLoop.simps [simp del]

text \<open>\<open>graph.nodes[0] ? graph.nodes[0].id : null\<close>, the empty string for null.\<close>

definition firstNodeId :: "graph \<Rightarrow> string" where
  "firstNodeId g = (case nodes g of [] \<Rightarrow> [] | n # _ \<Rightarrow> nid n)"

text \<open>\<open>startNodeId || (graph.nodes[0] ? graph.nodes[0].id : null)\<close>\<close>

definition startNodeOf :: "graph \<Rightarrow> string option \<Rightarrow> string" where
  "startNodeOf g startNodeId =
     (case startNodeId of
        Some s \<Rightarrow> if s \<noteq> [] then s else firstNodeId g
      | None \<Rightarrow> firstNodeId g)"

definition primAlgorithm :: "graph \<Rightarrow> string option \<Rightarrow> string + presult" where
  "primAlgorithm g startNodeId =
     (case validateGraph g of
        Inl msg \<Rightarrow> Inl (''Prim algorithm error: '' @ msg)
      | Inr _ \<Rightarrow>
          if length (nodes g) = 0 then
            Inl (''Prim algorithm error: '' @ ''Graph must have at least one node'')
          else
            (let adjList = createAdjacencyList g;
                 startNode = startNodeOf g startNodeId in
             if startNode = [] then
               Inl (''Prim algorithm error: '' @ ''No valid start node found'')
             else
               (let visited = setAdd [] startNode;
                    queue = sort_key q_weight
                              (frontierOf startNode (neighborsOf adjList startNode) visited);
                    st = primLoop (length (nodes g)) adjList
                           \<lparr>ps_visited = visited, ps_priorityQueue = queue, ps_mstEdges = [],
                            ps_totalCost = 0,
                            ps_steps = [\<lparr>
                              p_step = 0,
                              p_description = PStarting startNode,
                              p_currentEdge = None,
                              p_visitedNodes = visited,
                              p_priorityQueue = queue,
                              p_mstEdges = [],
                              p_totalCost = 0,
                              p_action = ''initialize'',
                              p_newEdgesAdded = None\<rparr>],
                            ps_stepCount = 1\<rparr>;
                    steps = (if length (ps_visited st) = length (nodes g) then
                               ps_steps st @ [\<lparr>
                                 p_step = ps_stepCount st,
                                 p_description = PCompleted (ps_totalCost st),
                                 p_currentEdge = None,
                                 p_visitedNodes = ps_visited st,
                                 p_priorityQueue = [],
                                 p_mstEdges = ps_mstEdges st,
                                 p_totalCost = ps_totalCost st,
                                 p_action = ''complete'',
                                 p_newEdgesAdded = None\<rparr>]
                             else ps_steps st) in
                Inr \<lparr>pr_steps = steps,
                     pr_finalResult = \<lparr>
                       pf_mstEdges = ps_mstEdges st,
                       pf_totalCost = ps_totalCost st,
                       pf_edgeCount = length (ps_mstEdges st),
                       pf_startNode = startNode\<rparr>\<rparr>)))"

section \<open>The Dijkstra trace engine\<close>

text \<open>A distance: a finite number or the \<open>Infinity\<close> of the source, above every number.\<close>

datatype dist = Fin int | Infinity

instantiation dist :: linorder
begin

fun less_eq_dist :: "dist \<Rightarrow> dist \<Rightarrow> bool" where
  "less_eq_dist (Fin a) (Fin b) = (a \<le> b)"
| "less_eq_dist _ Infinity = True"
| "less_eq_dist Infinity (Fin _) = False"

definition less_dist :: "dist \<Rightarrow> dist \<Rightarrow> bool" where
  "less_dist a b = (a \<le> b \<and> \<not> b \<le> a)"

instance
proof
  fix x y z :: dist
  show "(x < y) = (x \<le> y \<and> \<not> y \<le> x)" by (simp add: less_dist_def)
  show "x \<le> x" by (cases x) auto
  show "x \<le> y \<Longrightarrow> y \<le> z \<Longrightarrow> x \<le> z" by (cases x; cases y; cases z) auto
  show "x \<le> y \<Longrightarrow> y \<le> x \<Longrightarrow> x = y" by (cases x; cases y) auto
  show "x \<le> y \<or> y \<le> x" by (cases x; cases y) auto
qed

end

record dqEntry =
  dq_nodeId :: string
  dq_distance :: dist

record pathInfo =
  pi_path :: "string list"
  pi_distance :: dist

record dupdate =
  u_nodeId :: string
  u_oldDistance :: dist
  u_newDistance :: dist
  u_via :: string

datatype ddescription =
    DStarting string                 \<comment> \<open>Starting Dijkstra's Algorithm from node s\<close>
  | DProcessing string dist          \<comment> \<open>Processing node n with distance d\<close>
  | DUpdated nat string              \<comment> \<open>Updated distances for k neighbor(s) of node n\<close>
  | DAllComputed string              \<comment> \<open>All shortest paths from s computed\<close>
  | DNoPath string string            \<comment> \<open>No path exists from s to t\<close>
  | DShortestPath string string "string list option" dist
      \<comment> \<open>Shortest path from s to t: path (distance: d); \<open>None\<close> is the text No path\<close>

text \<open>
  \<open>distances\<close> and \<open>previous\<close> are objects keyed by node id; a key of \<open>previous\<close>
  holds a node id or \<open>null\<close> (\<open>Some None\<close>).
\<close>

type_synonym distances = "string \<rightharpoonup> dist"
type_synonym previous = "string \<rightharpoonup> string option"

record dstep =
  d_step :: nat
  d_description :: ddescription
  d_currentNode :: "string option"
  d_distances :: distances
  d_previous :: previous
  d_visited :: "string list"
  d_priorityQueue :: "dqEntry list"
  d_shortestPaths :: "string \<rightharpoonup> pathInfo"
  d_action :: string
  d_updatedNeighbors :: "dupdate list option"

record dfinal =
  df_sourceNode :: string
  df_targetNode :: "string option"
  df_distances :: distances
  df_shortestPaths :: "string \<rightharpoonup> pathInfo"
  df_pathExists :: bool

record dresult =
  dr_steps :: "dstep list"
  dr_finalResult :: dfinal

record dstate =
  ds_distances :: distances
  ds_previous :: previous
  ds_visited :: "string list"
  ds_priorityQueue :: "dqEntry list"
  ds_steps :: "dstep list"
  ds_stepCount :: nat

text \<open>\<open>safeCloneDistances\<close> and \<open>safeClonePrevious\<close> copy every entry into a new object.\<close>

definition safeCloneDistances :: "distances \<Rightarrow> distances" where
  "safeCloneDistances distances = (\<lambda>nodeId. distances nodeId)"

definition safeClonePrevious :: "previous \<Rightarrow> previous" where
  "safeClonePrevious previous = (\<lambda>nodeId. previous nodeId)"

text \<open>
  The \<open>while\<close> loop of \<open>getShortestPaths\<close>: \<open>fuel\<close> is \<open>maxSteps - steps\<close>,
  \<open>current\<close> is \<open>None\<close> for null or undefined, and \<open>path.unshift\<close> puts the node in
  front.
\<close>

fun walkBack :: "previous \<Rightarrow> string \<Rightarrow> nat \<Rightarrow> string option \<Rightarrow> string list \<Rightarrow> string list" where
  "walkBack previous source 0 current path = path"
| "walkBack previous source (Suc fuel) None path = path"
| "walkBack previous source (Suc fuel) (Some c) path =
     (if c = source then c # path
      else walkBack previous source fuel
             (case previous c of None \<Rightarrow> None | Some p \<Rightarrow> p) (c # path))"

definition pathTo :: "previous \<Rightarrow> string \<Rightarrow> nat \<Rightarrow> distances \<Rightarrow> string \<Rightarrow> pathInfo" where
  "pathTo previous source maxSteps distances nodeId =
     (if nodeId = source then \<lparr>pi_path = [source], pi_distance = Fin 0\<rparr>
      else
        (let path = walkBack previous source maxSteps (Some nodeId) [] in
         if path \<noteq> [] \<and> hd path = source then
           \<lparr>pi_path = path,
            pi_distance = (case distances nodeId of Some d \<Rightarrow> d | None \<Rightarrow> Infinity)\<rparr>
         else \<lparr>pi_path = [], pi_distance = Infinity\<rparr>))"

definition getShortestPaths ::
  "previous \<Rightarrow> string \<Rightarrow> string list \<Rightarrow> distances \<Rightarrow> (string \<rightharpoonup> pathInfo)" where
  "getShortestPaths previous source processedNodes distances =
     (if source = [] then Map.empty
      else fold (\<lambda>nodeId paths.
                   if nodeId = [] then paths
                   else paths(nodeId \<mapsto>
                          pathTo previous source (length processedNodes + 1) distances nodeId))
             processedNodes Map.empty)"

text \<open>
  The callback of \<open>neighbors.forEach\<close>, on the variables it updates: distances,
  previous, updatedNeighbors and the queue. A distance read as \<open>undefined\<close> makes the
  comparison false.
\<close>

definition relaxEdge ::
  "string \<Rightarrow> string list \<Rightarrow> adjEntry
    \<Rightarrow> distances \<times> previous \<times> dupdate list \<times> dqEntry list
    \<Rightarrow> distances \<times> previous \<times> dupdate list \<times> dqEntry list" where
  "relaxEdge currentNodeId visited e acc =
     (case acc of (distances, previous, updatedNeighbors, queue) \<Rightarrow>
      if a_to e = [] then acc
      else if a_to e \<in> set visited then acc
      else
        (case (distances currentNodeId, distances (a_to e)) of
           (Some currentDist, Some oldDistance) \<Rightarrow>
             (let newDistance = (case currentDist of
                                   Infinity \<Rightarrow> Infinity
                                 | Fin d \<Rightarrow> Fin (d + a_weight e)) in
              if newDistance < oldDistance then
                (distances(a_to e \<mapsto> newDistance),
                 previous(a_to e \<mapsto> Some currentNodeId),
                 updatedNeighbors @ [\<lparr>u_nodeId = a_to e, u_oldDistance = oldDistance,
                                      u_newDistance = newDistance, u_via = currentNodeId\<rparr>],
                 filter (\<lambda>item. dq_nodeId item \<noteq> a_to e) queue
                   @ [\<lparr>dq_nodeId = a_to e, dq_distance = newDistance\<rparr>])
              else acc)
         | _ \<Rightarrow> acc))"

text \<open>Marking the popped node visited and emitting its \<open>process_node\<close> step.\<close>

definition dijkstraVisit :: "string \<Rightarrow> string \<Rightarrow> dqEntry list \<Rightarrow> dstate \<Rightarrow> dstate" where
  "dijkstraVisit source currentNodeId queue st =
     (let visited = setAdd (ds_visited st) currentNodeId in
      st\<lparr>ds_visited := visited,
         ds_priorityQueue := queue,
         ds_steps := ds_steps st @ [\<lparr>
           d_step = ds_stepCount st,
           d_description = DProcessing currentNodeId
             (case ds_distances st currentNodeId of Some d \<Rightarrow> d | None \<Rightarrow> Fin 0),
           d_currentNode = Some currentNodeId,
           d_distances = safeCloneDistances (ds_distances st),
           d_previous = safeClonePrevious (ds_previous st),
           d_visited = visited,
           d_priorityQueue = queue,
           d_shortestPaths = getShortestPaths (ds_previous st) source visited (ds_distances st),
           d_action = ''process_node'',
           d_updatedNeighbors = None\<rparr>],
         ds_stepCount := ds_stepCount st + 1\<rparr>)"

text \<open>Relaxing the neighbours of the visited node, with the \<open>update_distances\<close> step.\<close>

definition dijkstraRelax :: "adjacency \<Rightarrow> string \<Rightarrow> string \<Rightarrow> dstate \<Rightarrow> dstate" where
  "dijkstraRelax adjList source currentNodeId st =
     (case fold (relaxEdge currentNodeId (ds_visited st)) (neighborsOf adjList currentNodeId)
             (ds_distances st, ds_previous st, [], ds_priorityQueue st) of
        (distances, previous, updatedNeighbors, queue) \<Rightarrow>
          if length updatedNeighbors > 0 then
            st\<lparr>ds_distances := distances, ds_previous := previous, ds_priorityQueue := queue,
               ds_steps := ds_steps st @ [\<lparr>
                 d_step = ds_stepCount st,
                 d_description = DUpdated (length updatedNeighbors) currentNodeId,
                 d_currentNode = Some currentNodeId,
                 d_distances = safeCloneDistances distances,
                 d_previous = safeClonePrevious previous,
                 d_visited = ds_visited st,
                 d_priorityQueue = queue,
                 d_shortestPaths = getShortestPaths previous source (ds_visited st) distances,
                 d_action = ''update_distances'',
                 d_updatedNeighbors = Some updatedNeighbors\<rparr>],
               ds_stepCount := ds_stepCount st + 1\<rparr>
          else st\<lparr>ds_distances := distances, ds_previous := previous, ds_priorityQueue := queue\<rparr>)"

definition dijkstraPending :: "adjacency \<Rightarrow> dstate \<Rightarrow> string set" where
  "dijkstraPending adj st =
     (adjTargets adj \<union> dq_nodeId ` set (ds_priorityQueue st)) - set (ds_visited st)"

text \<open>\<open>targetNodeId && currentNodeId === targetNodeId\<close>\<close>

definition isTarget :: "string option \<Rightarrow> string \<Rightarrow> bool" where
  "isTarget targetNodeId currentNodeId =
     (case targetNodeId of None \<Rightarrow> False | Some t \<Rightarrow> t \<noteq> [] \<and> currentNodeId = t)"

lemma finite_dijkstraPending: "finite (dijkstraPending adj st)"
  by (simp add: dijkstraPending_def finite_adjTargets)

lemma relaxEdge_queue:
  assumes "relaxEdge c visited e (d, p, u, q) = (d', p', u', q')"
  shows "dq_nodeId ` set q' \<subseteq> dq_nodeId ` set q \<union> {a_to e}"
  using assms
  by (auto simp: relaxEdge_def Let_def split: if_splits option.splits)

lemma fold_relaxEdge_queue:
  assumes "fold (relaxEdge c visited) es (d, p, u, q) = (d', p', u', q')"
  shows "dq_nodeId ` set q' \<subseteq> dq_nodeId ` set q \<union> a_to ` set es"
  using assms
proof (induction es arbitrary: d p u q)
  case Nil
  then show ?case by simp
next
  case (Cons e es)
  obtain d1 p1 u1 q1 where r: "relaxEdge c visited e (d, p, u, q) = (d1, p1, u1, q1)"
    by (metis prod_cases4)
  with Cons.prems have "fold (relaxEdge c visited) es (d1, p1, u1, q1) = (d', p', u', q')"
    by simp
  from Cons.IH[OF this] relaxEdge_queue[OF r] show ?case by auto
qed

lemma dijkstraRelax_fields:
  "ds_visited (dijkstraRelax adj s c st) = ds_visited st"
  "dq_nodeId ` set (ds_priorityQueue (dijkstraRelax adj s c st))
     \<subseteq> dq_nodeId ` set (ds_priorityQueue st) \<union> adjTargets adj"
proof -
  obtain d' p' u' q' where f: "fold (relaxEdge c (ds_visited st)) (neighborsOf adj c)
             (ds_distances st, ds_previous st, [], ds_priorityQueue st) = (d', p', u', q')"
    by (metis prod_cases4)
  show "ds_visited (dijkstraRelax adj s c st) = ds_visited st"
    by (simp add: dijkstraRelax_def f)
  have "a_to ` set (neighborsOf adj c) \<subseteq> adjTargets adj"
    using neighborsOf_targets by auto
  with fold_relaxEdge_queue[OF f]
  show "dq_nodeId ` set (ds_priorityQueue (dijkstraRelax adj s c st))
     \<subseteq> dq_nodeId ` set (ds_priorityQueue st) \<union> adjTargets adj"
    by (auto simp: dijkstraRelax_def f)
qed

lemma dijkstraVisit_fields:
  "ds_visited (dijkstraVisit s c q st) = setAdd (ds_visited st) c"
  "ds_priorityQueue (dijkstraVisit s c q st) = q"
  by (simp_all add: dijkstraVisit_def Let_def)

lemma sorted_queue_cases:
  assumes "sort_key dq_distance (ds_priorityQueue st) = c # q"
  shows "set (ds_priorityQueue st) = insert c (set q)"
    and "length (ds_priorityQueue st) = Suc (length q)"
proof -
  have "set (sort_key dq_distance (ds_priorityQueue st)) = set (ds_priorityQueue st)" by simp
  with assms show "set (ds_priorityQueue st) = insert c (set q)" by simp
  have "length (sort_key dq_distance (ds_priorityQueue st)) = length (ds_priorityQueue st)" by simp
  with assms show "length (ds_priorityQueue st) = Suc (length q)" by simp
qed

lemma dijkstra_pop_decreases:
  assumes "sort_key dq_distance (ds_priorityQueue st) = c # q"
  shows "card (dijkstraPending adj (st\<lparr>ds_priorityQueue := q\<rparr>)) \<le> card (dijkstraPending adj st)"
    and "length (ds_priorityQueue (st\<lparr>ds_priorityQueue := q\<rparr>)) < length (ds_priorityQueue st)"
proof -
  have "dijkstraPending adj (st\<lparr>ds_priorityQueue := q\<rparr>) \<subseteq> dijkstraPending adj st"
    using sorted_queue_cases(1)[OF assms] by (auto simp: dijkstraPending_def)
  then show "card (dijkstraPending adj (st\<lparr>ds_priorityQueue := q\<rparr>)) \<le> card (dijkstraPending adj st)"
    by (rule card_mono[OF finite_dijkstraPending])
  show "length (ds_priorityQueue (st\<lparr>ds_priorityQueue := q\<rparr>)) < length (ds_priorityQueue st)"
    using sorted_queue_cases(2)[OF assms] by simp
qed

lemma dijkstra_visit_decreases:
  assumes "sort_key dq_distance (ds_priorityQueue st) = c # q"
    and "dq_nodeId c \<notin> set (ds_visited st)"
  shows "card (dijkstraPending adj (dijkstraRelax adj s (dq_nodeId c) (dijkstraVisit s (dq_nodeId c) q st)))
          < card (dijkstraPending adj st)"
proof -
  let ?st' = "dijkstraRelax adj s (dq_nodeId c) (dijkstraVisit s (dq_nodeId c) q st)"
  have v: "set (ds_visited ?st') = insert (dq_nodeId c) (set (ds_visited st))"
    by (auto simp add: dijkstraRelax_fields(1) dijkstraVisit_fields setAdd_def)
  have q: "dq_nodeId ` set (ds_priorityQueue ?st') \<subseteq> dq_nodeId ` set q \<union> adjTargets adj"
    using dijkstraRelax_fields(2)[of adj s "dq_nodeId c" "dijkstraVisit s (dq_nodeId c) q st"]
    by (simp add: dijkstraVisit_fields)
  have "dq_nodeId c \<in> dijkstraPending adj st"
    using assms sorted_queue_cases(1)[OF assms(1)] by (simp add: dijkstraPending_def)
  moreover have "dq_nodeId c \<notin> dijkstraPending adj ?st'"
    using v by (simp add: dijkstraPending_def)
  moreover have "dijkstraPending adj ?st' \<subseteq> dijkstraPending adj st"
    using v q sorted_queue_cases(1)[OF assms(1)] by (auto simp: dijkstraPending_def)
  ultimately have "dijkstraPending adj ?st' \<subset> dijkstraPending adj st" by blast
  then show ?thesis by (rule psubset_card_mono[OF finite_dijkstraPending])
qed

text \<open>
  The \<open>while\<close> loop: the queue is sorted in place, its head shifted off; a popped
  entry without node id or already visited is dropped without a step; reaching the
  target leaves the loop.
\<close>

function dijkstraLoop :: "adjacency \<Rightarrow> string \<Rightarrow> string option \<Rightarrow> dstate \<Rightarrow> dstate" where
  "dijkstraLoop adjList source targetNodeId st =
     (case sort_key dq_distance (ds_priorityQueue st) of
        [] \<Rightarrow> st
      | current # queue \<Rightarrow>
          if dq_nodeId current = [] then
            dijkstraLoop adjList source targetNodeId (st\<lparr>ds_priorityQueue := queue\<rparr>)
          else if dq_nodeId current \<in> set (ds_visited st) then
            dijkstraLoop adjList source targetNodeId (st\<lparr>ds_priorityQueue := queue\<rparr>)
          else if isTarget targetNodeId (dq_nodeId current) then
            dijkstraVisit source (dq_nodeId current) queue st
          else
            dijkstraLoop adjList source targetNodeId
              (dijkstraRelax adjList source (dq_nodeId current)
                 (dijkstraVisit source (dq_nodeId current) queue st)))"
  by pat_completeness auto
termination
proof (relation "measures [\<lambda>(adj, s, t, st). card (dijkstraPending adj st),
                           \<lambda>(adj, s, t, st). length (ds_priorityQueue st)]", goal_cases)
  case 1
  show ?case by simp
next
  case (2 adjList source targetNodeId st current queue)
  then show ?case using dijkstra_pop_decreases(1)[of st current queue adjList]
      dijkstra_pop_decreases(2)[of st current queue] by auto
next
  case (3 adjList source targetNodeId st current queue)
  then show ?case using dijkstra_pop_decreases(1)[of st current queue adjList]
      dijkstra_pop_decreases(2)[of st current queue] by auto
next
  case (4 adjList source targetNodeId st current queue)
  then show ?case
    using dijkstra_visit_decreases[of st current queue adjList source] by auto
qed

declare dijkstraLoop.simps [simp del]

text \<open>\<open>targetNodeId\<close> when it is truthy.\<close>

definition truthyTarget :: "string option \<Rightarrow> string option" where
  "truthyTarget targetNodeId =
     (case targetNodeId of None \<Rightarrow> None | Some t \<Rightarrow> if t \<noteq> [] then Some t else None)"

definition dijkstraAlgorithm :: "graph \<Rightarrow> string \<Rightarrow> string option \<Rightarrow> string + dresult" where
  "dijkstraAlgorithm g sourceNodeId targetNodeId =
     (case validateGraph g of
        Inl msg \<Rightarrow> Inl (''Dijkstra algorithm error: '' @ msg)
      | Inr _ \<Rightarrow>
          if sourceNodeId = [] then
            Inl (''Dijkstra algorithm error: '' @ ''Source node ID is required'')
          else if \<not> list_ex (\<lambda>n. nid n = sourceNodeId) (nodes g) then
            Inl (''Dijkstra algorithm error: '' @ ''Source node '' @ [CHR 0x27] @ sourceNodeId
                   @ [CHR 0x27] @ '' not found in graph'')
          else
            (let adjList = createAdjacencyList g;
                 distances0 = fold (\<lambda>n m. if nid n \<noteq> [] then
                                 m(nid n \<mapsto> (if nid n = sourceNodeId then Fin 0 else Infinity))
                               else m) (nodes g) Map.empty;
                 previous0 = fold (\<lambda>n m. if nid n \<noteq> [] then m(nid n \<mapsto> None) else m)
                               (nodes g) Map.empty;
                 queue0 = [\<lparr>dq_nodeId = sourceNodeId, dq_distance = Fin 0\<rparr>];
                 st = dijkstraLoop adjList sourceNodeId targetNodeId
                        \<lparr>ds_distances = distances0, ds_previous = previous0, ds_visited = [],
                         ds_priorityQueue = queue0,
                         ds_steps = [\<lparr>
                           d_step = 0,
                           d_description = DStarting sourceNodeId,
                           d_currentNode = None,
                           d_distances = safeCloneDistances distances0,
                           d_previous = safeClonePrevious previous0,
                           d_visited = [],
                           d_priorityQueue = queue0,
                           d_shortestPaths = Map.empty,
                           d_action = ''initialize'',
                           d_updatedNeighbors = None\<rparr>],
                         ds_stepCount = 1\<rparr>;
                 finalPaths = getShortestPaths (ds_previous st) sourceNodeId
                                (map nid (nodes g)) (ds_distances st);
                 finalDescription =
                   (case truthyTarget targetNodeId of
                      None \<Rightarrow> DAllComputed sourceNodeId
                    | Some t \<Rightarrow>
                        if ds_distances st t = Some Infinity then DNoPath sourceNodeId t
                        else DShortestPath sourceNodeId t
                               (case finalPaths t of
                                  None \<Rightarrow> None
                                | Some p \<Rightarrow> if pi_path p \<noteq> [] then Some (pi_path p) else None)
                               (case ds_distances st t of Some d \<Rightarrow> d | None \<Rightarrow> Fin 0)) in
             Inr \<lparr>dr_steps = ds_steps st @ [\<lparr>
                    d_step = ds_stepCount st,
                    d_description = finalDescription,
                    d_currentNode = None,
                    d_distances = safeCloneDistances (ds_distances st),
                    d_previous = safeClonePrevious (ds_previous st),
                    d_visited = ds_visited st,
                    d_priorityQueue = [],
                    d_shortestPaths = finalPaths,
                    d_action = ''complete'',
                    d_updatedNeighbors = None\<rparr>],
                  dr_finalResult = \<lparr>
                    df_sourceNode = sourceNodeId,
                    df_targetNode = truthyTarget targetNodeId,
                    df_distances = safeCloneDistances (ds_distances st),
                    df_shortestPaths = finalPaths,
                    df_pathExists =
                      (case truthyTarget targetNodeId of
                         None \<Rightarrow> True
                       | Some t \<Rightarrow> ds_distances st t \<noteq> Some Infinity)\<rparr>\<rparr>))"

section \<open>Union-find: representatives\<close>

text \<open>
  \<open>is_rep p x r\<close>: following the parent pointers of \<open>p\<close> from \<open>x\<close> ends at the
  root \<open>r\<close>.
\<close>

inductive is_rep :: "nat list \<Rightarrow> nat \<Rightarrow> nat \<Rightarrow> bool" for p where
  root: "x < length p \<Longrightarrow> p ! x = x \<Longrightarrow> is_rep p x x"
| step: "x < length p \<Longrightarrow> p ! x \<noteq> x \<Longrightarrow> is_rep p (p ! x) r \<Longrightarrow> is_rep p x r"

lemma is_rep_bound: "is_rep p x r \<Longrightarrow> x < length p"
  by (induction rule: is_rep.induct) auto



lemma is_rep_det: "is_rep p x r \<Longrightarrow> is_rep p x r' \<Longrightarrow> r = r'"
proof (induction arbitrary: r' rule: is_rep.induct)
  case (root x)
  from root.prems root.hyps show ?case by (cases rule: is_rep.cases) auto
next
  case (step x r)
  from step.prems step.hyps(1,2) have "is_rep p (p ! x) r'"
    by (cases rule: is_rep.cases) auto
  then show ?case by (rule step.IH)
qed

text \<open>Every index has a representative: the parent array has no cycle but the roots' loops.\<close>

definition uf_wf :: "nat list \<Rightarrow> bool" where
  "uf_wf p = (\<forall>x < length p. \<exists>r. is_rep p x r)"

text \<open>\<open>p'\<close> has the length of \<open>p\<close> and gives every index the representative \<open>p\<close> gives it.\<close>

definition keeps_reps :: "nat list \<Rightarrow> nat list \<Rightarrow> bool" where
  "keeps_reps p p' = (length p' = length p \<and> (\<forall>y s. is_rep p y s \<longrightarrow> is_rep p' y s))"




lemma keeps_reps_back:
  assumes "keeps_reps p p'" and "uf_wf p" and "is_rep p' y s"
  shows "is_rep p y s"
proof -
  from assms(1,3) have "y < length p" by (auto simp: keeps_reps_def dest: is_rep_bound)
  with assms(2) obtain s' where s': "is_rep p y s'" by (auto simp: uf_wf_def)
  with assms(1) have "is_rep p' y s'" by (simp add: keeps_reps_def)
  with assms(3) have "s = s'" by (rule is_rep_det)
  with s' show ?thesis by simp
qed



subsection \<open>The operations return, and what they return\<close>
















section \<open>Kruskal: every call returns\<close>








section \<open>The adjacency list, characterised\<close>

text \<open>The ids of the nodes that have one, and the edges both of whose ends are such ids.\<close>

definition ids :: "graph \<Rightarrow> string set" where
  "ids g = set (filter (\<lambda>i. i \<noteq> []) (map nid (nodes g)))"

definition usable :: "graph \<Rightarrow> edge \<Rightarrow> bool" where
  "usable g e = (efrom e \<in> ids g \<and> eto e \<in> ids g)"

text \<open>The adjacency entries edge \<open>e\<close> contributes to the list of node \<open>a\<close>.\<close>

definition entriesFor :: "edge \<Rightarrow> string \<Rightarrow> adjEntry list" where
  "entriesFor e a =
     (if efrom e = a then [\<lparr>a_to = eto e, a_weight = eweight e, a_edgeId = edgeIdOf e\<rparr>] else [])
     @ (if \<not> edirected e \<and> eto e = a
        then [\<lparr>a_to = efrom e, a_weight = eweight e, a_edgeId = edgeIdOf e\<rparr>] else [])"

lemma map_of_adjSet: "map_of (adjSet k v adj) = (map_of adj)(k \<mapsto> v)"
  by (induction adj) auto

lemma map_of_adjPush:
  "map_of (adjPush k x adj)
     = (case map_of adj k of None \<Rightarrow> map_of adj | Some v \<Rightarrow> (map_of adj)(k \<mapsto> v @ [x]))"
  by (simp add: adjPush_def map_of_adjSet split: option.splits)


lemma map_of_adjAddEdge:
  "map_of (adjAddEdge e adj) a
     = (case map_of adj a of
          None \<Rightarrow> None
        | Some v \<Rightarrow>
            Some (v @ (if efrom e \<noteq> [] \<and> eto e \<noteq> [] \<and> efrom e \<in> dom (map_of adj)
                          \<and> eto e \<in> dom (map_of adj)
                       then entriesFor e a else [])))"
  by (auto simp: adjAddEdge_def Let_def map_of_adjPush entriesFor_def dom_def
      split: option.splits)

lemma dom_adjAddEdge: "dom (map_of (adjAddEdge e adj)) = dom (map_of adj)"
  by (auto simp: map_of_adjAddEdge dom_def split: option.splits)

lemma dom_fold_adjAddEdge: "dom (map_of (fold adjAddEdge es adj)) = dom (map_of adj)"
  by (induction es arbitrary: adj) (simp_all add: dom_adjAddEdge)










section \<open>Spanning sets of minimum weight\<close>

text \<open>
  An undirected weighted edge is a triple of two node ids and a weight, read in both
  directions. \<open>conn T\<close> is reachability along the edges of \<open>T\<close>.
\<close>

type_synonym uedge = "string \<times> string \<times> int"

definition link :: "uedge set \<Rightarrow> string \<Rightarrow> string \<Rightarrow> bool" where
  "link T a b = (\<exists>w. (a, b, w) \<in> T \<or> (b, a, w) \<in> T)"


definition weight :: "uedge set \<Rightarrow> int" where
  "weight T = (\<Sum>e \<in> T. snd (snd e))"




















section \<open>Invariant rules for the loops of Prim and Dijkstra\<close>

lemma primLoop_unfold:
  "ps_priorityQueue st = [] \<Longrightarrow> primLoop n adj st = st"
  "ps_priorityQueue st = c # q \<Longrightarrow> \<not> length (ps_visited st) < n \<Longrightarrow> primLoop n adj st = st"
  "ps_priorityQueue st = c # q \<Longrightarrow> length (ps_visited st) < n
     \<Longrightarrow> primLoop n adj st = primLoop n adj (primIter adj c q st)"
  by (subst primLoop.simps, simp)+

lemma primLoop_invariant:
  assumes init: "I st0"
    and step: "\<And>st c q. I st \<Longrightarrow> ps_priorityQueue st = c # q \<Longrightarrow> length (ps_visited st) < n
            \<Longrightarrow> I (primIter adj c q st)"
  shows "I (primLoop n adj st0)"
proof -
  have "m = n \<longrightarrow> a = adj \<longrightarrow> I st \<longrightarrow> I (primLoop m a st)" for m a st
  proof (induction m a st rule: primLoop.induct)
    case (1 m a st)
    show ?case
    proof (intro impI)
      assume eq: "m = n" "a = adj" and inv: "I st"
      show "I (primLoop m a st)"
      proof (cases "ps_priorityQueue st")
        case Nil
        then show ?thesis using inv by (simp add: primLoop_unfold(1))
      next
        case (Cons c q)
        show ?thesis
        proof (cases "length (ps_visited st) < m")
          case True
          have "I (primIter a c q st)" using step[OF inv Cons] True eq by simp
          with "1.IH"[OF Cons True] eq primLoop_unfold(3)[OF Cons True, of a] show ?thesis
            by simp
        next
          case False
          then show ?thesis using inv by (simp add: primLoop_unfold(2)[OF Cons False])
        qed
      qed
    qed
  qed
  with init show ?thesis by simp
qed


lemma dijkstraLoop_unfold:
  "sort_key dq_distance (ds_priorityQueue st) = [] \<Longrightarrow> dijkstraLoop adj s t st = st"
  "sort_key dq_distance (ds_priorityQueue st) = c # q
     \<Longrightarrow> dq_nodeId c = [] \<or> dq_nodeId c \<in> set (ds_visited st)
     \<Longrightarrow> dijkstraLoop adj s t st = dijkstraLoop adj s t (st\<lparr>ds_priorityQueue := q\<rparr>)"
  "sort_key dq_distance (ds_priorityQueue st) = c # q
     \<Longrightarrow> dq_nodeId c \<noteq> [] \<Longrightarrow> dq_nodeId c \<notin> set (ds_visited st)
     \<Longrightarrow> isTarget t (dq_nodeId c)
     \<Longrightarrow> dijkstraLoop adj s t st = dijkstraVisit s (dq_nodeId c) q st"
  "sort_key dq_distance (ds_priorityQueue st) = c # q
     \<Longrightarrow> dq_nodeId c \<noteq> [] \<Longrightarrow> dq_nodeId c \<notin> set (ds_visited st)
     \<Longrightarrow> \<not> isTarget t (dq_nodeId c)
     \<Longrightarrow> dijkstraLoop adj s t st =
           dijkstraLoop adj s t (dijkstraRelax adj s (dq_nodeId c) (dijkstraVisit s (dq_nodeId c) q st))"
  by (subst dijkstraLoop.simps, auto)+

lemma dijkstraLoop_invariant:
  assumes init: "I st0"
    and pop: "\<And>st c q. I st \<Longrightarrow> sort_key dq_distance (ds_priorityQueue st) = c # q
            \<Longrightarrow> dq_nodeId c = [] \<or> dq_nodeId c \<in> set (ds_visited st)
            \<Longrightarrow> I (st\<lparr>ds_priorityQueue := q\<rparr>)"
    and visit: "\<And>st c q. I st \<Longrightarrow> sort_key dq_distance (ds_priorityQueue st) = c # q
            \<Longrightarrow> dq_nodeId c \<noteq> [] \<Longrightarrow> dq_nodeId c \<notin> set (ds_visited st)
            \<Longrightarrow> I (dijkstraVisit source (dq_nodeId c) q st)"
    and relax: "\<And>st c. I st \<Longrightarrow> c \<in> set (ds_visited st) \<Longrightarrow> I (dijkstraRelax adj source c st)"
  shows "I (dijkstraLoop adj source target st0)"
proof -
  have "a = adj \<longrightarrow> s = source \<longrightarrow> I st \<longrightarrow> I (dijkstraLoop a s t st)" for a s t st
  proof (induction a s t st rule: dijkstraLoop.induct)
    case (1 a s t st)
    show ?case
    proof (intro impI)
      assume eq: "a = adj" "s = source" and inv: "I st"
      show "I (dijkstraLoop a s t st)"
      proof (cases "sort_key dq_distance (ds_priorityQueue st)")
        case Nil
        then show ?thesis using inv by (simp add: dijkstraLoop_unfold(1))
      next
        case (Cons c q)
        consider (empty) "dq_nodeId c = []"
          | (seen) "dq_nodeId c \<noteq> []" "dq_nodeId c \<in> set (ds_visited st)"
          | (target) "dq_nodeId c \<noteq> []" "dq_nodeId c \<notin> set (ds_visited st)"
                     "isTarget t (dq_nodeId c)"
          | (relax) "dq_nodeId c \<noteq> []" "dq_nodeId c \<notin> set (ds_visited st)"
                     "\<not> isTarget t (dq_nodeId c)"
          by blast
        then show ?thesis
        proof cases
          case empty
          then have d: "dq_nodeId c = [] \<or> dq_nodeId c \<in> set (ds_visited st)" by simp
          have "I (st\<lparr>ds_priorityQueue := q\<rparr>)" using pop[OF inv Cons d] .
          with "1.IH"(1)[OF Cons empty] eq show ?thesis
            by (simp add: dijkstraLoop_unfold(2)[OF Cons d])
        next
          case seen
          then have d: "dq_nodeId c = [] \<or> dq_nodeId c \<in> set (ds_visited st)" by simp
          have "I (st\<lparr>ds_priorityQueue := q\<rparr>)" using pop[OF inv Cons d] .
          with "1.IH"(2)[OF Cons seen] eq show ?thesis
            by (simp add: dijkstraLoop_unfold(2)[OF Cons d])
        next
          case target
          have "I (dijkstraVisit source (dq_nodeId c) q st)"
            using visit[OF inv Cons target(1,2)] .
          then show ?thesis using eq by (simp add: dijkstraLoop_unfold(3)[OF Cons target])
        next
          case relax
          have v: "I (dijkstraVisit source (dq_nodeId c) q st)"
            using visit[OF inv Cons relax(1,2)] .
          have "dq_nodeId c \<in> set (ds_visited (dijkstraVisit source (dq_nodeId c) q st))"
            by (simp add: dijkstraVisit_fields setAdd_def)
          from assms(4)[OF v this]
          have "I (dijkstraRelax adj source (dq_nodeId c) (dijkstraVisit source (dq_nodeId c) q st))" .
          with "1.IH"(3)[OF Cons relax] eq show ?thesis
            by (simp add: dijkstraLoop_unfold(4)[OF Cons relax])
        qed
      qed
    qed
  qed
  with init show ?thesis by simp
qed

section \<open>Example inputs\<close>

declare UnionFind_find.simps [code]

definition mkEdge :: "string \<Rightarrow> string \<Rightarrow> int \<Rightarrow> edge" where
  "mkEdge a b w =
     \<lparr>eid = Some (a @ ''-'' @ b), efrom = a, eto = b, eweight = w, edirected = False\<rparr>"

text \<open>The same edge sent without an \<open>id\<close>.\<close>

definition mkEdgeNoId :: "string \<Rightarrow> string \<Rightarrow> int \<Rightarrow> edge" where
  "mkEdgeNoId a b w = \<lparr>eid = None, efrom = a, eto = b, eweight = w, edirected = False\<rparr>"

text \<open>A triangle A, B, C with edges A-B:1, B-C:2, A-C:3.\<close>

definition triangle :: graph where
  "triangle =
     \<lparr>nodes = [\<lparr>nid = ''A''\<rparr>, \<lparr>nid = ''B''\<rparr>, \<lparr>nid = ''C''\<rparr>],
      edges = [mkEdge ''A'' ''B'' 1, mkEdge ''B'' ''C'' 2, mkEdge ''A'' ''C'' 3]\<rparr>"

text \<open>Nodes A, B, C with two parallel edges A-B (weights 1 and 2) and B-C:3, no edge ids.\<close>

definition parallelNoIds :: graph where
  "parallelNoIds =
     \<lparr>nodes = [\<lparr>nid = ''A''\<rparr>, \<lparr>nid = ''B''\<rparr>, \<lparr>nid = ''C''\<rparr>],
      edges = [mkEdgeNoId ''A'' ''B'' 1, mkEdgeNoId ''A'' ''B'' 2, mkEdgeNoId ''B'' ''C'' 3]\<rparr>"

text \<open>A single node A and no edge.\<close>

definition singleton :: graph where
  "singleton = \<lparr>nodes = [\<lparr>nid = ''A''\<rparr>], edges = []\<rparr>"

text \<open>The graph of the specification's Prim example: A-B:1, B-C:2, A-C:5.\<close>

definition specTriangle :: graph where
  "specTriangle =
     \<lparr>nodes = [\<lparr>nid = ''A''\<rparr>, \<lparr>nid = ''B''\<rparr>, \<lparr>nid = ''C''\<rparr>],
      edges = [mkEdge ''A'' ''B'' 1, mkEdge ''B'' ''C'' 2, mkEdge ''A'' ''C'' 5]\<rparr>"




section \<open>Kruskal: what the trace looks like after the tree is complete\<close>

text \<open>
  C2 (step numbers strictly increasing from 0), at the triangle: Kruskal numbers the
  step of the edge at sorted position \<open>i\<close> as \<open>i + 1\<close> and a \<open>complete\<close> step as
  \<open>i + 2\<close>, and goes on with the next edge after a \<open>complete\<close> step, so the number 3
  is used twice.
\<close>

theorem kruskal_triangle_step_numbers:
  "(case kruskalAlgorithm triangle of
      Some (Inr r) \<Rightarrow> map k_step (kr_steps r) = [0, 1, 2, 3, 3, 4]
    | _ \<Rightarrow> False)"
  by code_simp

text \<open>
  C3 (one \<open>complete\<close> step, last, and no edge processed after it), at the triangle:
  the third edge is examined and rejected after the \<open>complete\<close> step, and a second
  \<open>complete\<close> step follows.
\<close>

theorem kruskal_triangle_actions:
  "(case kruskalAlgorithm triangle of
      Some (Inr r) \<Rightarrow>
        map k_action (kr_steps r) =
          [''initialize'', ''accept'', ''accept'', ''complete'', ''reject'', ''complete'']
    | _ \<Rightarrow> False)"
  by code_simp

text \<open>
  C6 (the snapshot marks an earlier edge accepted exactly when it was accepted), on
  edges without ids: the second edge A-B is rejected at step 2, and the snapshot of
  step 3 marks it accepted, because the lookup \<open>mst.id === e.id\<close> compares
  \<open>undefined\<close> with \<open>undefined\<close>.
\<close>

theorem kruskal_no_ids_annotation:
  "(case kruskalAlgorithm parallelNoIds of
      Some (Inr r) \<Rightarrow>
        map (\<lambda>s. (k_step s, k_action s, map status (k_sortedEdges s))) (kr_steps r) =
          [(0, ''initialize'', [''pending'', ''pending'', ''pending'']),
           (1, ''accept'', [''accepted'', ''pending'', ''pending'']),
           (2, ''reject'', [''accepted'', ''rejected'', ''pending'']),
           (3, ''accept'', [''accepted'', ''accepted'', ''accepted'']),
           (4, ''complete'', [''accepted'', ''accepted'', ''accepted''])]
    | _ \<Rightarrow> False)"
  by code_simp

section \<open>Prim: a start id that is not a node\<close>

text \<open>
  C9 (an unknown start id is an error), on the single node A with start id Z: the run
  returns a trace whose \<open>complete\<close> step lists Z as the only visited node.
\<close>

theorem prim_unknown_start_returns:
  "(case primAlgorithm singleton (Some ''Z'') of
      Inr r \<Rightarrow>
        map (\<lambda>s. (p_action s, p_visitedNodes s)) (pr_steps r) =
          [(''initialize'', [''Z'']), (''complete'', [''Z''])]
        \<and> pf_startNode (pr_finalResult r) = ''Z''
        \<and> pf_edgeCount (pr_finalResult r) = 0
    | Inl _ \<Rightarrow> False)"
  by code_simp

section \<open>Dijkstra: reconstructed paths\<close>

lemma walkBack_last:
  "path \<noteq> [] \<Longrightarrow> last (walkBack previous source fuel current path) = last path"
  by (induction previous source fuel current path rule: walkBack.induct) auto

lemma walkBack_from_node:
  "last (walkBack previous source (Suc fuel) (Some nodeId) []) = nodeId"
  by (simp add: walkBack_last)

lemma pathTo_ends:
  assumes "pi_path (pathTo previous source m distances nodeId) \<noteq> []" and "0 < m"
  shows "hd (pi_path (pathTo previous source m distances nodeId)) = source
       \<and> last (pi_path (pathTo previous source m distances nodeId)) = nodeId"
proof (cases "nodeId = source")
  case True
  then show ?thesis by (simp add: pathTo_def)
next
  case False
  from assms(2) obtain k where m: "m = Suc k" by (cases m) auto
  let ?path = "walkBack previous source m (Some nodeId) []"
  from assms False have ok: "?path \<noteq> [] \<and> hd ?path = source"
    by (auto simp: pathTo_def Let_def split: if_splits)
  then have "pi_path (pathTo previous source m distances nodeId) = ?path"
    using False by (simp add: pathTo_def Let_def)
  with ok walkBack_from_node[of previous source k nodeId] m show ?thesis by simp
qed

definition pathsEnd :: "string \<Rightarrow> (string \<rightharpoonup> pathInfo) \<Rightarrow> bool" where
  "pathsEnd source paths =
     (\<forall>nodeId p. paths nodeId = Some p \<longrightarrow> pi_path p \<noteq> []
        \<longrightarrow> hd (pi_path p) = source \<and> last (pi_path p) = nodeId)"

lemma fold_paths_end:
  assumes "pathsEnd source paths" and "0 < m"
  shows "pathsEnd source
           (fold (\<lambda>nodeId paths.
                    if nodeId = [] then paths
                    else paths(nodeId \<mapsto> pathTo previous source m distances nodeId))
              ns paths)"
  using assms(1)
proof (induction ns arbitrary: paths)
  case Nil
  then show ?case by simp
next
  case (Cons n ns)
  have "pathsEnd source (if n = [] then paths
          else paths(n \<mapsto> pathTo previous source m distances n))"
    using Cons.prems pathTo_ends[of previous source m distances n] assms(2)
    by (auto simp: pathsEnd_def)
  from Cons.IH[OF this] show ?case by simp
qed

lemma getShortestPaths_ends:
  "pathsEnd source (getShortestPaths previous source processedNodes distances)"
proof (cases "source = []")
  case True
  then show ?thesis by (simp add: getShortestPaths_def pathsEnd_def)
next
  case False
  have "pathsEnd source Map.empty" by (simp add: pathsEnd_def)
  from fold_paths_end[OF this, of "length processedNodes + 1" previous distances processedNodes]
  show ?thesis using False by (simp add: getShortestPaths_def)
qed

lemma dijkstraLoop_steps_pathsEnd:
  assumes "\<forall>s \<in> set (ds_steps st). pathsEnd source (d_shortestPaths s)"
  shows "\<forall>s \<in> set (ds_steps (dijkstraLoop adj source target st)). pathsEnd source (d_shortestPaths s)"
proof (rule dijkstraLoop_invariant[where I = "\<lambda>st. \<forall>s \<in> set (ds_steps st). pathsEnd source (d_shortestPaths s)"])
  show "\<forall>s \<in> set (ds_steps st). pathsEnd source (d_shortestPaths s)" by (rule assms)
next
  fix st :: dstate and c q
  assume "\<forall>s \<in> set (ds_steps st). pathsEnd source (d_shortestPaths s)"
  then show "\<forall>s \<in> set (ds_steps (st\<lparr>ds_priorityQueue := q\<rparr>)). pathsEnd source (d_shortestPaths s)"
    by simp
next
  fix st :: dstate and c q
  assume "\<forall>s \<in> set (ds_steps st). pathsEnd source (d_shortestPaths s)"
  then show "\<forall>s \<in> set (ds_steps (dijkstraVisit source (dq_nodeId c) q st)). pathsEnd source (d_shortestPaths s)"
    by (auto simp: dijkstraVisit_def Let_def getShortestPaths_ends)
next
  fix st :: dstate and c
  assume "\<forall>s \<in> set (ds_steps st). pathsEnd source (d_shortestPaths s)"
  then show "\<forall>s \<in> set (ds_steps (dijkstraRelax adj source c st)). pathsEnd source (d_shortestPaths s)"
    by (auto simp: dijkstraRelax_def getShortestPaths_ends split: prod.splits)
qed

text \<open>
  C8: in every step of a Dijkstra trace, a non-empty path recorded for a node begins
  with the source and ends with that node.
\<close>

theorem dijkstra_paths_ends:
  assumes "dijkstraAlgorithm g source target = Inr r"
    and "s \<in> set (dr_steps r)"
    and "d_shortestPaths s nodeId = Some p"
    and "pi_path p \<noteq> []"
  shows "hd (pi_path p) = source \<and> last (pi_path p) = nodeId"
proof -
  have "\<forall>s \<in> set (dr_steps r). pathsEnd source (d_shortestPaths s)"
    using assms(1)
    by (auto simp: dijkstraAlgorithm_def Let_def getShortestPaths_ends pathsEnd_def[of source Map.empty]
        split: sum.splits if_splits
        dest!: dijkstraLoop_steps_pathsEnd[THEN bspec, rotated])
  with assms(2-4) show ?thesis by (auto simp: pathsEnd_def)
qed

theorem dijkstra_paths_ends_witness:
  "\<exists>r s p. dijkstraAlgorithm specTriangle ''A'' None = Inr r \<and> s \<in> set (dr_steps r)
     \<and> d_shortestPaths s ''C'' = Some p \<and> pi_path p = [''A'', ''B'', ''C'']
     \<and> hd (pi_path p) = ''A'' \<and> last (pi_path p) = ''C''"
proof -
  have "case dijkstraAlgorithm specTriangle ''A'' None of
          Inr r \<Rightarrow> dr_steps r \<noteq> [] \<and>
            d_shortestPaths (last (dr_steps r)) ''C''
              = Some \<lparr>pi_path = [''A'', ''B'', ''C''], pi_distance = Fin 3\<rparr>
        | Inl _ \<Rightarrow> False"
    by code_simp
  then obtain r where r: "dijkstraAlgorithm specTriangle ''A'' None = Inr r"
    and s: "last (dr_steps r) \<in> set (dr_steps r)"
    and p: "d_shortestPaths (last (dr_steps r)) ''C''
              = Some \<lparr>pi_path = [''A'', ''B'', ''C''], pi_distance = Fin 3\<rparr>"
    by (auto split: sum.splits)
  from dijkstra_paths_ends[OF r s p] r s p show ?thesis by force
qed


section \<open>Dijkstra: a target that is not a node\<close>










section \<open>Prim: the frontier holds no stale entry\<close>

definition freshFrontier :: "pstate \<Rightarrow> bool" where
  "freshFrontier st =
     ((\<forall>e \<in> set (ps_priorityQueue st). q_to e \<notin> set (ps_visited st))
      \<and> (\<forall>s \<in> set (ps_steps st). p_action s \<noteq> ''skip''
            \<and> (\<forall>e \<in> set (p_priorityQueue s). q_to e \<notin> set (p_visitedNodes s))))"

lemma freshFrontier_primIter:
  assumes "freshFrontier st" and "ps_priorityQueue st = c # q"
  shows "freshFrontier (primIter adj c q st)"
proof -
  from assms have c: "q_to c \<notin> set (ps_visited st)" by (simp add: freshFrontier_def)
  show ?thesis
  proof (cases "q_to c = []")
    case True
    then show ?thesis using assms by (simp add: primIter_def freshFrontier_def)
  next
    case False
    then have "primIter adj c q st = primAccept adj c q st" using c by (simp add: primIter_def)
    moreover have "freshFrontier (primAccept adj c q st)"
      using assms by (auto simp: primAccept_def freshFrontier_def Let_def)
    ultimately show ?thesis by simp
  qed
qed

lemma freshFrontier_primLoop:
  assumes "freshFrontier st"
  shows "freshFrontier (primLoop n adj st)"
  using assms by (rule primLoop_invariant) (rule freshFrontier_primIter)

text \<open>
  Every step of a returned trace: it is no \<open>skip\<close> step, and no entry of its frontier
  snapshot leads to a node of its visited snapshot.
\<close>

lemma prim_steps_fresh:
  assumes "primAlgorithm g startNodeId = Inr r" and "s \<in> set (pr_steps r)"
  shows "p_action s \<noteq> ''skip'' \<and> (\<forall>e \<in> set (p_priorityQueue s). q_to e \<notin> set (p_visitedNodes s))"
proof -
  have init: "freshFrontier
          \<lparr>ps_visited = setAdd [] start,
           ps_priorityQueue = sort_key q_weight (frontierOf start nb (setAdd [] start)),
           ps_mstEdges = [], ps_totalCost = 0,
           ps_steps = [\<lparr>p_step = 0, p_description = PStarting start, p_currentEdge = None,
                        p_visitedNodes = setAdd [] start,
                        p_priorityQueue = sort_key q_weight (frontierOf start nb (setAdd [] start)),
                        p_mstEdges = [], p_totalCost = 0, p_action = ''initialize'',
                        p_newEdgesAdded = None\<rparr>],
           ps_stepCount = 1\<rparr>" for start nb
    by (auto simp: freshFrontier_def frontierOf_def)
  from assms show ?thesis
    using freshFrontier_primLoop[OF init]
    by (auto simp: primAlgorithm_def Let_def freshFrontier_def split: sum.splits if_splits)
qed

text \<open>
  C5 as stated (some run pops a stale frontier edge and emits a \<open>skip\<close> step) does
  not hold: no run emits a \<open>skip\<close> step.
\<close>

theorem prim_skip_counterexample:
  "\<not> (\<exists>g startNodeId r s. primAlgorithm g startNodeId = Inr r \<and> s \<in> set (pr_steps r)
         \<and> p_action s = ''skip'')"
  using prim_steps_fresh by blast

text \<open>
  C5, amended: the frontier never holds a stale entry when an edge is popped. In every
  step of every run, each entry of the frontier snapshot has a far endpoint outside the
  visited snapshot (the frontier is filtered after each acceptance), and the step is not
  a \<open>skip\<close> step.
\<close>

theorem prim_frontier_never_stale:
  assumes "primAlgorithm g startNodeId = Inr r" and "s \<in> set (pr_steps r)"
  shows "(\<forall>e \<in> set (p_priorityQueue s). q_to e \<notin> set (p_visitedNodes s))
       \<and> p_action s \<noteq> ''skip''"
  using prim_steps_fresh[OF assms] by simp

theorem prim_frontier_never_stale_witness:
  "\<exists>r s. primAlgorithm specTriangle (Some ''A'') = Inr r \<and> s \<in> set (pr_steps r)
     \<and> p_action s = ''accept'' \<and> p_visitedNodes s = [''A'', ''B'']
     \<and> map q_to (p_priorityQueue s) = [''C'', ''C'']
     \<and> (\<forall>e \<in> set (p_priorityQueue s). q_to e \<notin> set (p_visitedNodes s))
     \<and> p_action s \<noteq> ''skip''"
proof -
  have "case primAlgorithm specTriangle (Some ''A'') of
          Inr r \<Rightarrow> length (pr_steps r) = 4 \<and> p_action (pr_steps r ! 1) = ''accept''
            \<and> p_visitedNodes (pr_steps r ! 1) = [''A'', ''B'']
            \<and> map q_to (p_priorityQueue (pr_steps r ! 1)) = [''C'', ''C'']
        | Inl _ \<Rightarrow> False"
    by code_simp
  then obtain r where r: "primAlgorithm specTriangle (Some ''A'') = Inr r"
    and s: "pr_steps r ! 1 \<in> set (pr_steps r)"
    and a: "p_action (pr_steps r ! 1) = ''accept''"
       "p_visitedNodes (pr_steps r ! 1) = [''A'', ''B'']"
       "map q_to (p_priorityQueue (pr_steps r ! 1)) = [''C'', ''C'']"
    by (auto split: sum.splits)
  from prim_frontier_never_stale[OF r s] r s a show ?thesis
    by (intro exI[where x = r] exI[where x = "pr_steps r ! 1"]) simp
qed

section \<open>Runs that do not reach every node\<close>










section \<open>Kruskal computes a spanning set of minimum weight\<close>

text \<open>
  The undirected edges of a graph: every usable edge, in both directions. The graph
  is connected when its usable edges join every two node ids.
\<close>

definition Eg :: "graph \<Rightarrow> uedge set" where
  "Eg g = (\<lambda>e. (efrom e, eto e, eweight e)) ` {e \<in> set (edges g). usable g e}"

definition Esym :: "graph \<Rightarrow> uedge set" where
  "Esym g = Eg g \<union> (\<lambda>(a, b, w). (b, a, w)) ` Eg g"







lemma link_Esym: "link (Esym g) a b = link (Eg g) a b"
  by (auto simp: link_def Esym_def)
















section \<open>Prim computes a spanning set of minimum weight\<close>












end
